theory Spec2Isabelle
  imports Main
begin

section \<open>The Minesweeper knowledge base of Project 1/minesweeper/minesweeper.py\<close>

text \<open>
  A cell is a pair (row, column) of Python integers. A Python \<^verbatim>\<open>set\<close> of cells is a
  HOL set; the sets the program builds are finite, and \<^verbatim>\<open>len\<close> is \<^term>\<open>card\<close>.
\<close>

type_synonym cell = "int \<times> int"

subsection \<open>class Sentence\<close>

text \<open>
  \<^verbatim>\<open>Sentence.__eq__\<close> compares the cell sets and the counts, which is equality of records.
\<close>

record sentence =
  cells :: "cell set"
  count :: int

definition known_mines :: "sentence \<Rightarrow> cell set" where
  "known_mines s = (if count s = int (card (cells s)) then cells s else {})"

definition known_safes :: "sentence \<Rightarrow> cell set" where
  "known_safes s = (if count s = 0 \<and> cells s \<noteq> {} then cells s else {})"

definition sentence_mark_mine :: "sentence \<Rightarrow> cell \<Rightarrow> sentence" where
  "sentence_mark_mine s c =
     (if c \<in> cells s then s\<lparr>cells := cells s - {c}, count := count s - 1\<rparr> else s)"

definition sentence_mark_safe :: "sentence \<Rightarrow> cell \<Rightarrow> sentence" where
  "sentence_mark_safe s c = (if c \<in> cells s then s\<lparr>cells := cells s - {c}\<rparr> else s)"

subsection \<open>class MinesweeperAI: state\<close>

record ai =
  height :: int
  width :: int
  moves_made :: "cell set"
  mines :: "cell set"
  safes :: "cell set"
  knowledge :: "sentence list"

text \<open>\<^verbatim>\<open>MinesweeperAI.__init__\<close>\<close>

definition new_ai :: "int \<Rightarrow> int \<Rightarrow> ai" where
  "new_ai h w = \<lparr>height = h, width = w, moves_made = {}, mines = {}, safes = {}, knowledge = []\<rparr>"

text \<open>
  \<^verbatim>\<open>MinesweeperAI.mark_mine\<close> and \<^verbatim>\<open>MinesweeperAI.mark_safe\<close>: the cell joins the global set
  and every sentence of the list is updated in place.
\<close>

definition mark_mine :: "ai \<Rightarrow> cell \<Rightarrow> ai" where
  "mark_mine kb c =
     kb\<lparr>mines := insert c (mines kb),
        knowledge := map (\<lambda>s. sentence_mark_mine s c) (knowledge kb)\<rparr>"

definition mark_safe :: "ai \<Rightarrow> cell \<Rightarrow> ai" where
  "mark_safe kb c =
     kb\<lparr>safes := insert c (safes kb),
        knowledge := map (\<lambda>s. sentence_mark_safe s c) (knowledge kb)\<rparr>"

text \<open>
  The loops \<^verbatim>\<open>for mine in known_mines: self.mark_mine(mine)\<close> and
  \<^verbatim>\<open>for safe in known_safes: self.mark_safe(safe)\<close> run over a Python set, in an order the
  language does not fix. Their effect is written here on the whole set; the lemmas
  \<open>mark_mines_foldl\<close> and \<open>mark_safes_foldl\<close> below show that running \<^const>\<open>mark_mine\<close>,
  \<^const>\<open>mark_safe\<close> over any enumeration of the set gives exactly this.
\<close>

definition sentence_mark_mines :: "sentence \<Rightarrow> cell set \<Rightarrow> sentence" where
  "sentence_mark_mines s X =
     s\<lparr>cells := cells s - X, count := count s - int (card (cells s \<inter> X))\<rparr>"

definition sentence_mark_safes :: "sentence \<Rightarrow> cell set \<Rightarrow> sentence" where
  "sentence_mark_safes s X = s\<lparr>cells := cells s - X\<rparr>"

definition mark_mines :: "ai \<Rightarrow> cell set \<Rightarrow> ai" where
  "mark_mines kb X =
     kb\<lparr>mines := mines kb \<union> X,
        knowledge := map (\<lambda>s. sentence_mark_mines s X) (knowledge kb)\<rparr>"

definition mark_safes :: "ai \<Rightarrow> cell set \<Rightarrow> ai" where
  "mark_safes kb X =
     kb\<lparr>safes := safes kb \<union> X,
        knowledge := map (\<lambda>s. sentence_mark_safes s X) (knowledge kb)\<rparr>"

subsection \<open>add_knowledge, lines 197 to 227: recording the observation\<close>

text \<open>
  The in-bounds neighbours of a cell, the cell itself left out (lines 207 to 213), for a
  board of \<open>h\<close> rows and \<open>w\<close> columns.
\<close>

definition neighbours :: "int \<Rightarrow> int \<Rightarrow> cell \<Rightarrow> cell set" where
  "neighbours h w cell =
     (case cell of (row, column) \<Rightarrow>
        set [(r, c). r \<leftarrow> [row - 1..row + 1], c \<leftarrow> [column - 1..column + 1],
                     (r, c) \<noteq> cell \<and> 0 \<le> r \<and> r < h \<and> 0 \<le> c \<and> c < w])"

text \<open>
  Lines 215 to 224. Every neighbour that is a known mine or a known safe cell is invalid;
  the count drops by one for each neighbour that is a known mine. The loop of line 216 runs
  over a set; its effect is written here on the whole set, and lemma \<open>new_sentence_foldl\<close>
  below shows that its body (\<open>invalid_step\<close>), run over any enumeration of the neighbours,
  gives exactly this.
\<close>

definition new_sentence :: "ai \<Rightarrow> cell \<Rightarrow> int \<Rightarrow> sentence" where
  "new_sentence kb cell n =
     (let neighboring_cells = neighbours (height kb) (width kb) cell;
          invalid_cells = neighboring_cells \<inter> (mines kb \<union> safes kb);
          n' = n - int (card (neighboring_cells \<inter> mines kb))
      in \<lparr>cells = neighboring_cells - invalid_cells, count = n'\<rparr>)"

text \<open>
  Lines 197 to 227: the state in which the \<^verbatim>\<open>while\<close> loop starts. The new sentence is
  appended unless an equal one is in the list (lines 226 and 227).
\<close>

definition observe :: "ai \<Rightarrow> cell \<Rightarrow> int \<Rightarrow> ai" where
  "observe kb cell n =
     (let kb1 = mark_safe (kb\<lparr>moves_made := insert cell (moves_made kb)\<rparr>) cell;
          s = new_sentence kb1 cell n
      in if s \<notin> set (knowledge kb1) then kb1\<lparr>knowledge := knowledge kb1 @ [s]\<rparr> else kb1)"

subsection \<open>add_knowledge, lines 233 to 271: one pass of the loop\<close>

text \<open>
  Lines 238 to 252, for one sentence: the flag and the two sets collected so far, and the
  sentence after the cells that are known mines have been taken out of it.
\<close>

definition scan_sentence ::
  "cell set \<Rightarrow> bool \<times> cell set \<times> cell set \<Rightarrow> sentence
     \<Rightarrow> (bool \<times> cell set \<times> cell set) \<times> sentence" where
  "scan_sentence ms acc s =
     (case acc of (upd, km, ks) \<Rightarrow>
        let (upd1, km1, ks1) =
              (if known_mines s \<noteq> {} then (True, km \<union> known_mines s, ks)
               else if known_safes s \<noteq> {} then (True, km, ks \<union> known_safes s)
               else (upd, km, ks));
            discarded = cells s \<inter> ms;
            upd2 = (upd1 \<or> discarded \<noteq> {})
        in ((upd2, km1, ks1), s\<lparr>cells := cells s - discarded\<rparr>))"

fun scan ::
  "cell set \<Rightarrow> bool \<times> cell set \<times> cell set \<Rightarrow> sentence list
     \<Rightarrow> (bool \<times> cell set \<times> cell set) \<times> sentence list" where
  "scan ms acc [] = (acc, [])"
| "scan ms acc (s # ss) =
     (case scan_sentence ms acc s of (acc1, s') \<Rightarrow>
        case scan ms acc1 ss of (acc2, ss') \<Rightarrow> (acc2, s' # ss'))"

text \<open>Line 266: the sentence inferred from a pair.\<close>

definition inference :: "sentence \<Rightarrow> sentence \<Rightarrow> sentence" where
  "inference s1 s2 = \<lparr>cells = cells s1 - cells s2, count = count s1 - count s2\<rparr>"

text \<open>Lines 265 to 269, the body of the double loop for one pair.\<close>

definition infer_step ::
  "sentence list \<Rightarrow> bool \<times> sentence list \<Rightarrow> sentence \<times> sentence \<Rightarrow> bool \<times> sentence list" where
  "infer_step K acc p =
     (case acc of (upd, inferences) \<Rightarrow> case p of (s1, s2) \<Rightarrow>
        if cells s1 \<noteq> cells s2 \<and> cells s2 \<subseteq> cells s1 then
          (if inference s1 s2 \<notin> set K \<and> inference s1 s2 \<notin> set inferences
           then (True, inferences @ [inference s1 s2])
           else (upd, inferences))
        else (upd, inferences))"

text \<open>Lines 262 to 269: \<open>s1\<close> runs over the list in the outer loop, \<open>s2\<close> in the inner.\<close>

definition infer :: "sentence list \<Rightarrow> bool \<Rightarrow> bool \<times> sentence list" where
  "infer K upd = foldl (infer_step K) (upd, []) (List.product K K)"

text \<open>
  One pass of the body of \<^verbatim>\<open>while kb_updated\<close> (lines 234 to 271): the value of
  \<^verbatim>\<open>kb_updated\<close> at the end of the pass, and the state.
\<close>

definition pass :: "ai \<Rightarrow> bool \<times> ai" where
  "pass kb =
     (case scan (mines kb) (False, {}, {}) (knowledge kb) of ((upd, km, ks), K1) \<Rightarrow>
        let kb1 = kb\<lparr>knowledge := K1\<rparr>;
            kb2 = mark_mines kb1 km;
            kb3 = mark_safes kb2 ks;
            K4 = filter (\<lambda>s. cells s \<noteq> {}) (knowledge kb3);
            (upd', inferences) = infer K4 upd
        in (upd', kb3\<lparr>knowledge := K4 @ inferences\<rparr>))"

text \<open>
  The loop. \<^verbatim>\<open>kb_updated\<close> is \<^verbatim>\<open>True\<close> on entry, so the body runs at least once. Nothing in
  the source bounds the number of passes, so not returning is the value \<^const>\<open>None\<close>.
\<close>

partial_function (option) loop :: "ai \<Rightarrow> ai option" where
  "loop kb = (if fst (pass kb) then loop (snd (pass kb)) else Some (snd (pass kb)))"

declare loop.simps [code]

definition add_knowledge :: "ai \<Rightarrow> cell \<Rightarrow> int \<Rightarrow> ai option" where
  "add_knowledge kb cell n = loop (observe kb cell n)"

text \<open>A sequence of calls of \<^verbatim>\<open>add_knowledge\<close>, each on the state the one before left.\<close>

fun add_knowledge_seq :: "ai \<Rightarrow> (cell \<times> int) list \<Rightarrow> ai option" where
  "add_knowledge_seq kb [] = Some kb"
| "add_knowledge_seq kb ((cell, n) # obs) =
     (case add_knowledge kb cell n of None \<Rightarrow> None | Some kb' \<Rightarrow> add_knowledge_seq kb' obs)"

subsection \<open>Move selection\<close>

text \<open>
  \<^verbatim>\<open>set.pop()\<close> removes and returns an element the language does not fix. The possible
  outcomes of a pop on a non-empty set: the element returned and the set left.
\<close>

definition set_pop :: "'a set \<Rightarrow> ('a \<times> 'a set) set" where
  "set_pop S = (\<lambda>x. (x, S - {x})) ` S"

text \<open>
  The possible outcomes of \<^verbatim>\<open>make_safe_move\<close> and \<^verbatim>\<open>make_random_move\<close>: the value
  returned and the state of the object afterwards. The pop is on a local set.
\<close>

definition make_safe_move :: "ai \<Rightarrow> (cell option \<times> ai) set" where
  "make_safe_move kb =
     (let safes_local = safes kb - moves_made kb
      in if safes_local \<noteq> {} then (\<lambda>(x, rest). (Some x, kb)) ` set_pop safes_local
         else {(None, kb)})"

definition make_random_move :: "ai \<Rightarrow> (cell option \<times> ai) set" where
  "make_random_move kb =
     (let available_cells = set [(r, c). r \<leftarrow> [0..width kb - 1], c \<leftarrow> [0..height kb - 1]];
          available_cells1 = available_cells - moves_made kb;
          available_cells2 = available_cells1 - mines kb
      in if available_cells2 \<noteq> {}
         then (\<lambda>(x, rest). (Some x, kb)) ` set_pop available_cells2
         else {(None, kb)})"

text \<open>The cells of the board: rows 0 to height - 1, columns 0 to width - 1.\<close>

definition grid_cells :: "ai \<Rightarrow> cell set" where
  "grid_cells kb = {0..height kb - 1} \<times> {0..width kb - 1}"

subsection \<open>The board (class Minesweeper) and auxiliary notions of the proofs\<close>

text \<open>
  \<^verbatim>\<open>Minesweeper.nearby_mines\<close> (lines 55 to 78), for a board of \<open>h\<close> rows and \<open>w\<close> columns:
  \<open>M\<close> is the set of the cells \<open>(i, j)\<close> with \<^verbatim>\<open>board[i][j]\<close> true.
\<close>

definition nearby_mines :: "int \<Rightarrow> int \<Rightarrow> cell set \<Rightarrow> cell \<Rightarrow> int" where
  "nearby_mines h w M cell =
     (case cell of (row, column) \<Rightarrow>
        int (length [(i, j). i \<leftarrow> [row - 1..row + 1], j \<leftarrow> [column - 1..column + 1],
                     (i, j) \<noteq> cell \<and> 0 \<le> i \<and> i < h \<and> 0 \<le> j \<and> j < w \<and> (i, j) \<in> M]))"

text \<open>
  The observations of a game on the board with mines \<open>M\<close>: every probed cell is free of a
  mine and comes with the count the board reports for it. This is the contract in the
  docstring of \<^verbatim>\<open>add_knowledge\<close> (lines 182 to 184).
\<close>

definition truthful :: "int \<Rightarrow> int \<Rightarrow> cell set \<Rightarrow> (cell \<times> int) list \<Rightarrow> bool" where
  "truthful h w M obs \<longleftrightarrow>
     (\<forall>(cell, n) \<in> set obs. cell \<notin> M \<and> n = nearby_mines h w M cell)"

text \<open>A sentence is true of the board with mines \<open>M\<close>, and mentions none of the cells \<open>R\<close>.\<close>

definition holds :: "cell set \<Rightarrow> cell set \<Rightarrow> sentence \<Rightarrow> bool" where
  "holds M R s \<longleftrightarrow>
     finite (cells s) \<and> cells s \<inter> R = {} \<and> count s = int (card (cells s \<inter> M))"

definition sound :: "cell set \<Rightarrow> ai \<Rightarrow> bool" where
  "sound M kb \<longleftrightarrow>
     mines kb \<subseteq> M \<and> safes kb \<inter> M = {}
     \<and> (\<forall>s\<in>set (knowledge kb). holds M (mines kb \<union> safes kb) s)"

text \<open>What one scan of the sentence list (lines 238 to 252) collects.\<close>

definition found_mines :: "sentence list \<Rightarrow> cell set" where
  "found_mines K = (\<Union>s\<in>set K. known_mines s)"

definition found_safes :: "sentence list \<Rightarrow> cell set" where
  "found_safes K = (\<Union>s\<in>set K. if known_mines s = {} then known_safes s else {})"

definition found_any :: "cell set \<Rightarrow> sentence list \<Rightarrow> bool" where
  "found_any ms K \<longleftrightarrow>
     (\<exists>s\<in>set K. known_mines s \<noteq> {} \<or> known_safes s \<noteq> {} \<or> cells s \<inter> ms \<noteq> {})"

definition resolve :: "cell set \<Rightarrow> cell set \<Rightarrow> cell set \<Rightarrow> sentence \<Rightarrow> sentence" where
  "resolve ms km ks s =
     sentence_mark_safes (sentence_mark_mines (s\<lparr>cells := cells s - ms\<rparr>) km) ks"

definition candidates :: "sentence list \<Rightarrow> sentence set" where
  "candidates K =
     {inference s1 s2 | s1 s2.
        s1 \<in> set K \<and> s2 \<in> set K \<and> cells s1 \<noteq> cells s2 \<and> cells s2 \<subseteq> cells s1}"

definition proper_subset_pair :: "sentence \<times> sentence \<Rightarrow> bool" where
  "proper_subset_pair p \<longleftrightarrow> cells (fst p) \<noteq> cells (snd p) \<and> cells (snd p) \<subseteq> cells (fst p)"

definition survivors :: "ai \<Rightarrow> sentence list" where
  "survivors kb =
     filter (\<lambda>s. cells s \<noteq> {})
       (map (resolve (mines kb) (found_mines (knowledge kb)) (found_safes (knowledge kb)))
          (knowledge kb))"

text \<open>
  A family of states in which the loop never stops: two sentences over the same cells
  \<open>P \<union> Q\<close> with counts 1 and 5, and sentences over \<open>P\<close> and over \<open>Q\<close> whose counts stay in
  residue classes modulo 4 that keep them from ever being resolved.
\<close>

definition spread_sentence :: "cell set \<Rightarrow> cell set \<Rightarrow> sentence \<Rightarrow> bool" where
  "spread_sentence P Q s \<longleftrightarrow>
     cells s = P \<union> Q \<and> (count s = 1 \<or> count s = 5)
     \<or> cells s = P \<and> count s mod 4 = 2
     \<or> cells s = Q \<and> count s mod 4 = 3"

definition spread :: "cell set \<Rightarrow> cell set \<Rightarrow> ai \<Rightarrow> bool" where
  "spread P Q k \<longleftrightarrow>
     card P = 1 \<and> card Q = 2 \<and> P \<inter> Q = {} \<and> mines k = {}
     \<and> \<lparr>cells = P \<union> Q, count = 1\<rparr> \<in> set (knowledge k)
     \<and> \<lparr>cells = P \<union> Q, count = 5\<rparr> \<in> set (knowledge k)
     \<and> (\<exists>c. \<lparr>cells = P, count = c\<rparr> \<in> set (knowledge k))
     \<and> (\<forall>s\<in>set (knowledge k). spread_sentence P Q s)"

text \<open>The cells that the sentences of a state mention.\<close>

definition mentioned :: "ai \<Rightarrow> cell set" where
  "mentioned k = (\<Union>s\<in>set (knowledge k). cells s)"

text \<open>The sentences over cells of \<open>G\<close> with at least one cell and a count within bounds.\<close>

definition sentences_over :: "cell set \<Rightarrow> sentence set" where
  "sentences_over G =
     {s. cells s \<noteq> {} \<and> cells s \<subseteq> G \<and> 0 \<le> count s \<and> count s \<le> int (card (cells s))}"

text \<open>
  The order in which a pass that sets \<^verbatim>\<open>kb_updated\<close> goes down: fewer cells mentioned, or
  as many cells and more of the sentences over \<open>G\<close> in the list.
\<close>

definition pass_order :: "cell set \<Rightarrow> (ai \<times> ai) set" where
  "pass_order G =
     inv_image (less_than <*lex*> less_than)
       (\<lambda>k. (card (mentioned k), card (sentences_over G - set (knowledge k))))"

text \<open>
  The body of the loop of lines 216 to 221, for one neighbour: the set \<^verbatim>\<open>invalid_cells\<close> and
  the count so far.
\<close>

definition invalid_step :: "ai \<Rightarrow> cell set \<times> int \<Rightarrow> cell \<Rightarrow> cell set \<times> int" where
  "invalid_step kb acc nc =
     (case acc of (invalid_cells, n) \<Rightarrow>
        let (invalid1, n1) =
              (if nc \<in> mines kb then (insert nc invalid_cells, n - 1) else (invalid_cells, n))
        in (if nc \<in> safes kb then insert nc invalid1 else invalid1, n1))"


section \<open>One pass of the loop, in closed form\<close>

lemma Diff_Int_self: "A - A \<inter> B = A - B"
  by blast

lemma scan_eq:
  "scan ms (u, km, ks) K =
     ((u \<or> found_any ms K, km \<union> found_mines K, ks \<union> found_safes K),
      map (\<lambda>s. s\<lparr>cells := cells s - ms\<rparr>) K)"
proof (induction K arbitrary: u km ks)
  case Nil
  show ?case by (simp add: found_any_def found_mines_def found_safes_def)
next
  case (Cons s K)
  show ?case
    by (simp add: scan_sentence_def Let_def Cons.IH Diff_Int_self
        found_any_def found_mines_def found_safes_def) blast
qed

lemma infer_step_eq:
  "infer_step K (u, infs) p =
     (if proper_subset_pair p \<and> inference (fst p) (snd p) \<notin> set K
          \<and> inference (fst p) (snd p) \<notin> set infs
      then (True, infs @ [inference (fst p) (snd p)]) else (u, infs))"
  by (cases p) (simp add: infer_step_def proper_subset_pair_def)

lemma infer_foldl:
  "foldl (infer_step K) (u, infs) ps = (u', infs') \<Longrightarrow>
   set infs' = set infs \<union>
      (set (map (\<lambda>p. inference (fst p) (snd p)) (filter proper_subset_pair ps)) - set K)
   \<and> (u' \<longleftrightarrow> u \<or> set infs' \<noteq> set infs)
   \<and> (distinct infs \<longrightarrow> distinct infs')"
proof (induction ps arbitrary: u infs)
  case Nil
  then show ?case by simp
next
  case (Cons p ps)
  let ?new = "proper_subset_pair p \<and> inference (fst p) (snd p) \<notin> set K
          \<and> inference (fst p) (snd p) \<notin> set infs"
  show ?case
  proof (cases ?new)
    case True
    with Cons.prems
    have "foldl (infer_step K) (True, infs @ [inference (fst p) (snd p)]) ps = (u', infs')"
      by (simp add: infer_step_eq)
    from Cons.IH [OF this] True show ?thesis by auto
  next
    case False
    with Cons.prems have "foldl (infer_step K) (u, infs) ps = (u', infs')"
      by (simp add: infer_step_eq)
    from Cons.IH [OF this] False show ?thesis by auto
  qed
qed

lemma candidates_product:
  "set (map (\<lambda>p. inference (fst p) (snd p)) (filter proper_subset_pair (List.product K K)))
     = candidates K"
proof (rule set_eqI)
  fix x
  have "x \<in> candidates K \<longleftrightarrow>
          (\<exists>p\<in>set K \<times> set K. proper_subset_pair p \<and> x = inference (fst p) (snd p))"
    unfolding candidates_def proper_subset_pair_def by fastforce
  then show "x \<in> set (map (\<lambda>p. inference (fst p) (snd p))
                 (filter proper_subset_pair (List.product K K))) \<longleftrightarrow> x \<in> candidates K"
    by (simp add: image_iff Bex_def conj_commute conj_left_commute)
qed

lemma infer_eq:
  "set (snd (infer K u)) = candidates K - set K"
  "fst (infer K u) \<longleftrightarrow> u \<or> \<not> candidates K \<subseteq> set K"
  "distinct (snd (infer K u))"
proof -
  obtain u' infs' where e: "foldl (infer_step K) (u, []) (List.product K K) = (u', infs')"
    by (cases "foldl (infer_step K) (u, []) (List.product K K)")
  from infer_foldl [OF e]
  have s: "set infs' = candidates K - set K" and f: "u' \<longleftrightarrow> u \<or> infs' \<noteq> []"
    and d: "distinct infs'"
    unfolding candidates_product by simp_all
  from e s show "set (snd (infer K u)) = candidates K - set K" by (simp add: infer_def)
  have "infs' \<noteq> [] \<longleftrightarrow> \<not> candidates K \<subseteq> set K"
    using s by (metis Diff_eq_empty_iff set_empty)
  with e f show "fst (infer K u) \<longleftrightarrow> u \<or> \<not> candidates K \<subseteq> set K"
    by (simp add: infer_def)
  from e d show "distinct (snd (infer K u))" by (simp add: infer_def)
qed

lemma pass_eq:
  "pass kb =
     (fst (infer (survivors kb) (found_any (mines kb) (knowledge kb))),
      kb\<lparr>mines := mines kb \<union> found_mines (knowledge kb),
         safes := safes kb \<union> found_safes (knowledge kb),
         knowledge := survivors kb
            @ snd (infer (survivors kb) (found_any (mines kb) (knowledge kb)))\<rparr>)"
  by (simp add: pass_def scan_eq Let_def mark_mines_def mark_safes_def survivors_def
      resolve_def [abs_def] split_beta o_def)

section \<open>Neighbours, the loop rule and soundness of the sentences\<close>

lemma comprehension_product:
  "concat (map (\<lambda>i. concat (map (\<lambda>j. if P i j then [(i, j)] else []) ys)) xs)
     = filter (\<lambda>(i, j). P i j) (List.product xs ys)"
proof (induction xs)
  case Nil
  show ?case by simp
next
  case (Cons x xs)
  have "concat (map (\<lambda>j. if P x j then [(x, j)] else []) ys)
          = filter (\<lambda>(i, j). P i j) (map (Pair x) ys)"
    by (induction ys) simp_all
  with Cons show ?case by simp
qed

lemma neighbours_filter:
  "neighbours h w (row, column) =
     set (filter (\<lambda>(r, c). (r, c) \<noteq> (row, column) \<and> 0 \<le> r \<and> r < h \<and> 0 \<le> c \<and> c < w)
            (List.product [row - 1..row + 1] [column - 1..column + 1]))"
  by (simp add: neighbours_def comprehension_product)

lemma nearby_mines_filter:
  "nearby_mines h w M (row, column) =
     int (length (filter (\<lambda>p. p \<in> M)
       (filter (\<lambda>(r, c). (r, c) \<noteq> (row, column) \<and> 0 \<le> r \<and> r < h \<and> 0 \<le> c \<and> c < w)
            (List.product [row - 1..row + 1] [column - 1..column + 1]))))"
  by (simp add: nearby_mines_def comprehension_product conj_assoc split_def cong: conj_cong)

lemma finite_neighbours: "finite (neighbours h w cell)"
  by (cases cell) (simp only: neighbours_filter finite_set)

lemma nearby_mines_card: "nearby_mines h w M cell = int (card (neighbours h w cell \<inter> M))"
proof (cases cell)
  case (Pair row column)
  let ?L = "filter (\<lambda>(r, c). (r, c) \<noteq> (row, column) \<and> 0 \<le> r \<and> r < h \<and> 0 \<le> c \<and> c < w)
            (List.product [row - 1..row + 1] [column - 1..column + 1])"
  have d: "distinct (filter (\<lambda>p. p \<in> M) ?L)"
    by (intro distinct_filter distinct_product distinct_upto)
  have "set (filter (\<lambda>p. p \<in> M) ?L) = neighbours h w cell \<inter> M"
    unfolding Pair neighbours_filter by auto
  with distinct_card [OF d] show ?thesis
    unfolding Pair nearby_mines_filter by simp
qed

lemma neighbours_not_self: "cell \<notin> neighbours h w cell"
  by (cases cell) (simp add: neighbours_filter)


lemma loop_induct:
  assumes run: "loop kb = Some kb'" and init: "P kb" and step: "\<And>k. P k \<Longrightarrow> P (snd (pass k))"
  shows "P kb' \<and> (\<exists>k. P k \<and> pass k = (False, kb'))"
proof -
  have "P kb \<longrightarrow> P kb' \<and> (\<exists>k. P k \<and> pass k = (False, kb'))"
  proof (rule loop.raw_induct
      [where P = "\<lambda>a b. P a \<longrightarrow> P b \<and> (\<exists>k. P k \<and> pass k = (False, b))", OF _ run])
    fix loop' :: "ai \<Rightarrow> ai option" and a b
    assume IH: "\<And>x y. loop' x = Some y \<Longrightarrow> P x \<longrightarrow> P y \<and> (\<exists>k. P k \<and> pass k = (False, y))"
      and eq: "(if fst (pass a) then loop' (snd (pass a)) else Some (snd (pass a))) = Some b"
    show "P a \<longrightarrow> P b \<and> (\<exists>k. P k \<and> pass k = (False, b))"
    proof
      assume p: "P a"
      show "P b \<and> (\<exists>k. P k \<and> pass k = (False, b))"
      proof (cases "fst (pass a)")
        case True
        with eq have "loop' (snd (pass a)) = Some b" by simp
        from IH [OF this] step [OF p] show ?thesis by simp
      next
        case False
        with eq have e: "b = snd (pass a)" by simp
        with False have "pass a = (False, b)" by (simp add: prod_eq_iff)
        with e step [OF p] p show ?thesis by blast
      qed
    qed
  qed
  with init show ?thesis by simp
qed

lemma holds_known_mines:
  "holds M R s \<Longrightarrow> known_mines s \<subseteq> M"
proof -
  assume h: "holds M R s"
  show ?thesis
  proof (cases "count s = int (card (cells s))")
    case True
    with h have "card (cells s \<inter> M) = card (cells s)" and f: "finite (cells s)"
      by (simp_all add: holds_def)
    then have "cells s \<inter> M = cells s" by (intro card_subset_eq) auto
    with True show ?thesis by (auto simp: known_mines_def)
  next
    case False
    then show ?thesis by (simp add: known_mines_def)
  qed
qed

lemma holds_known_safes:
  "holds M R s \<Longrightarrow> known_safes s \<inter> M = {}"
  by (auto simp: holds_def known_safes_def)

lemma found_mines_sound:
  "\<forall>s\<in>set K. holds M R s \<Longrightarrow> found_mines K \<subseteq> M"
  using holds_known_mines by (fastforce simp: found_mines_def)

lemma found_safes_sound:
  "\<forall>s\<in>set K. holds M R s \<Longrightarrow> found_safes K \<inter> M = {}"
  using holds_known_safes by (fastforce simp: found_safes_def split: if_splits)

lemma resolve_fields:
  "cells (resolve ms km ks s) = cells s - ms - km - ks"
  "count (resolve ms km ks s) = count s - int (card ((cells s - ms) \<inter> km))"
  by (simp_all add: resolve_def sentence_mark_mines_def sentence_mark_safes_def)

lemma holds_resolve:
  assumes h: "holds M R s" and ms: "ms \<subseteq> R" and km: "km \<subseteq> M" and ks: "ks \<inter> M = {}"
  shows "holds M (R \<union> km \<union> ks) (resolve ms km ks s)"
proof -
  from h have f: "finite (cells s)" and d: "cells s \<inter> R = {}"
    and c: "count s = int (card (cells s \<inter> M))"
    by (simp_all add: holds_def)
  from d ms have e1: "cells s - ms = cells s" by blast
  from km ks have e2: "(cells s - ms - km - ks) \<inter> M = (cells s \<inter> M) - (cells s \<inter> km)"
    using e1 by blast
  from km have sub: "cells s \<inter> km \<subseteq> cells s \<inter> M" by blast
  have "card ((cells s \<inter> M) - (cells s \<inter> km)) = card (cells s \<inter> M) - card (cells s \<inter> km)"
    using f by (intro card_Diff_subset sub) auto
  moreover have "card (cells s \<inter> km) \<le> card (cells s \<inter> M)"
    using f sub by (intro card_mono) auto
  ultimately have "int (card ((cells s - ms - km - ks) \<inter> M))
      = count s - int (card ((cells s - ms) \<inter> km))"
    using c e1 e2 by simp
  moreover from d have "(cells s - ms - km - ks) \<inter> (R \<union> km \<union> ks) = {}" by blast
  ultimately show ?thesis using f by (simp add: holds_def resolve_fields)
qed

lemma holds_inference:
  assumes h1: "holds M R s1" and h2: "holds M R s2" and sub: "cells s2 \<subseteq> cells s1"
  shows "holds M R (inference s1 s2)"
proof -
  from h1 h2 have f: "finite (cells s1)" "finite (cells s2)" by (simp_all add: holds_def)
  from sub have e: "(cells s1 - cells s2) \<inter> M = (cells s1 \<inter> M) - (cells s2 \<inter> M)" by blast
  from sub have s: "cells s2 \<inter> M \<subseteq> cells s1 \<inter> M" by blast
  have "card ((cells s1 \<inter> M) - (cells s2 \<inter> M)) = card (cells s1 \<inter> M) - card (cells s2 \<inter> M)"
    using f by (intro card_Diff_subset s) auto
  moreover have "card (cells s2 \<inter> M) \<le> card (cells s1 \<inter> M)"
    using f s by (intro card_mono) auto
  ultimately have "int (card ((cells s1 - cells s2) \<inter> M)) = count s1 - count s2"
    using h1 h2 e by (simp add: holds_def)
  moreover from h1 have "(cells s1 - cells s2) \<inter> R = {}" by (auto simp: holds_def)
  ultimately show ?thesis using f by (simp add: holds_def inference_def)
qed

lemma holds_candidates:
  "\<forall>s\<in>set K. holds M R s \<Longrightarrow> x \<in> candidates K \<Longrightarrow> holds M R x"
  using holds_inference by (fastforce simp: candidates_def)

lemma sound_pass:
  assumes s: "sound M kb"
  shows "sound M (snd (pass kb))"
proof -
  let ?K = "knowledge kb"
  let ?R = "mines kb \<union> safes kb"
  let ?R' = "?R \<union> found_mines ?K \<union> found_safes ?K"
  from s have all: "\<forall>s\<in>set ?K. holds M ?R s" and m: "mines kb \<subseteq> M"
    and sf: "safes kb \<inter> M = {}"
    by (simp_all add: sound_def)
  note km = found_mines_sound [OF all] and ks = found_safes_sound [OF all]
  have surv: "\<forall>s\<in>set (survivors kb). holds M ?R' s"
    using all km ks by (auto simp: survivors_def intro!: holds_resolve)
  then have "\<forall>s\<in>set (survivors kb) \<union> candidates (survivors kb). holds M ?R' s"
    using holds_candidates by blast
  then have "\<forall>s\<in>set (survivors kb @ snd (infer (survivors kb) u)). holds M ?R' s" for u
    by (simp add: infer_eq)
  moreover have "mines kb \<union> found_mines ?K \<union> (safes kb \<union> found_safes ?K) = ?R'"
    by blast
  ultimately show ?thesis
    using m sf km ks by (simp add: pass_eq sound_def) blast
qed


lemma holds_mark_safe:
  assumes h: "holds M R s" and c: "c \<notin> M"
  shows "holds M (insert c R) (sentence_mark_safe s c)"
proof -
  from c have "(cells s - {c}) \<inter> M = cells s \<inter> M" by blast
  with h show ?thesis by (auto simp: holds_def sentence_mark_safe_def)
qed

lemma holds_new_sentence:
  assumes m: "mines kb \<subseteq> M" and sf: "safes kb \<inter> M = {}"
    and n: "n = nearby_mines (height kb) (width kb) M cell"
  shows "holds M (mines kb \<union> safes kb) (new_sentence kb cell n)"
proof -
  let ?N = "neighbours (height kb) (width kb) cell"
  have f: "finite ?N" by (rule finite_neighbours)
  from m sf have e: "(?N - ?N \<inter> (mines kb \<union> safes kb)) \<inter> M = (?N \<inter> M) - (?N \<inter> mines kb)"
    by blast
  from m have sub: "?N \<inter> mines kb \<subseteq> ?N \<inter> M" by blast
  have "card ((?N \<inter> M) - (?N \<inter> mines kb)) = card (?N \<inter> M) - card (?N \<inter> mines kb)"
    using f by (intro card_Diff_subset sub) auto
  moreover have "card (?N \<inter> mines kb) \<le> card (?N \<inter> M)"
    using f sub by (intro card_mono) auto
  ultimately have "int (card ((?N - ?N \<inter> (mines kb \<union> safes kb)) \<inter> M))
      = n - int (card (?N \<inter> mines kb))"
    using e n by (simp add: nearby_mines_card)
  moreover have "(?N - ?N \<inter> (mines kb \<union> safes kb)) \<inter> (mines kb \<union> safes kb) = {}" by blast
  ultimately show ?thesis using f by (simp add: holds_def new_sentence_def Let_def)
qed

lemma sound_observe:
  assumes s: "sound M kb" and c: "cell \<notin> M"
    and n: "n = nearby_mines (height kb) (width kb) M cell"
  shows "sound M (observe kb cell n)"
proof -
  let ?kb1 = "mark_safe (kb\<lparr>moves_made := insert cell (moves_made kb)\<rparr>) cell"
  from s have m: "mines ?kb1 \<subseteq> M" and sf: "safes ?kb1 \<inter> M = {}" using c
    by (simp_all add: sound_def mark_safe_def)
  have R: "mines ?kb1 \<union> safes ?kb1 = insert cell (mines kb \<union> safes kb)"
    by (simp add: mark_safe_def)
  from s have old: "\<forall>s\<in>set (knowledge ?kb1). holds M (mines ?kb1 \<union> safes ?kb1) s"
    unfolding R using c by (auto simp: sound_def mark_safe_def intro!: holds_mark_safe)
  have hw: "height ?kb1 = height kb" "width ?kb1 = width kb" by (simp_all add: mark_safe_def)
  from n have "holds M (mines ?kb1 \<union> safes ?kb1) (new_sentence ?kb1 cell n)"
    by (intro holds_new_sentence m sf) (simp add: hw)
  with old m sf show ?thesis
    unfolding observe_def Let_def sound_def by simp
qed

lemma pass_dims: "height (snd (pass kb)) = height kb" "width (snd (pass kb)) = width kb"
  by (simp_all add: pass_eq)

lemma observe_dims: "height (observe kb c n) = height kb" "width (observe kb c n) = width kb"
  by (simp_all add: observe_def Let_def mark_safe_def)

lemma sound_add_knowledge:
  assumes s: "sound M kb" and c: "cell \<notin> M"
    and n: "n = nearby_mines (height kb) (width kb) M cell"
    and run: "add_knowledge kb cell n = Some kb'"
  shows "sound M kb' \<and> height kb' = height kb \<and> width kb' = width kb"
proof -
  let ?P = "\<lambda>k. sound M k \<and> height k = height kb \<and> width k = width kb"
  from run have r: "loop (observe kb cell n) = Some kb'" by (simp add: add_knowledge_def)
  have i: "?P (observe kb cell n)" using sound_observe [OF s c n] by (simp add: observe_dims)
  have st: "\<And>k. ?P k \<Longrightarrow> ?P (snd (pass k))" by (simp add: sound_pass pass_dims)
  from loop_induct [of _ _ ?P, OF r i st] show ?thesis by simp
qed

lemma sound_add_knowledge_seq:
  "sound M kb \<Longrightarrow> truthful (height kb) (width kb) M obs \<Longrightarrow>
   add_knowledge_seq kb obs = Some kb' \<Longrightarrow> sound M kb'"
proof (induction obs arbitrary: kb)
  case Nil
  then show ?case by simp
next
  case (Cons o1 obs)
  obtain cell n where o1: "o1 = (cell, n)" by (cases o1)
  from Cons.prems(3) o1 obtain k where k: "add_knowledge kb cell n = Some k"
    and rest: "add_knowledge_seq k obs = Some kb'"
    by (auto split: option.splits)
  from Cons.prems(2) o1 have c: "cell \<notin> M" and n: "n = nearby_mines (height kb) (width kb) M cell"
    and t: "truthful (height kb) (width kb) M obs"
    by (simp_all add: truthful_def)
  from sound_add_knowledge [OF Cons.prems(1) c n k]
  have "sound M k" "height k = height kb" "width k = width kb" by simp_all
  with Cons.IH [of k] t rest show ?case by simp
qed

lemma sound_new_ai: "sound M (new_ai h w)"
  by (simp add: sound_def new_ai_def)

section \<open>The loops over Python sets do not depend on the order of iteration\<close>

lemma sentence_mark_mines_step:
  assumes "x \<notin> X" and "finite X"
  shows "sentence_mark_mines (sentence_mark_mine s x) X = sentence_mark_mines s (insert x X)"
proof (cases "x \<in> cells s")
  case True
  with assms have "(cells s - {x}) \<inter> X = cells s \<inter> X"
    and "cells s \<inter> insert x X = insert x (cells s \<inter> X)" and "x \<notin> cells s \<inter> X"
    and "finite (cells s \<inter> X)"
    by auto
  moreover have "cells s - {x} - X = cells s - insert x X" by blast
  ultimately show ?thesis
    using True by (simp add: sentence_mark_mines_def sentence_mark_mine_def)
next
  case False
  then have "cells s \<inter> insert x X = cells s \<inter> X" "cells s - insert x X = cells s - X"
    by auto
  with False show ?thesis by (simp add: sentence_mark_mines_def sentence_mark_mine_def)
qed

lemma mark_mines_empty: "mark_mines kb {} = kb"
  by (simp add: mark_mines_def sentence_mark_mines_def)

lemma mark_mines_foldl: "distinct xs \<Longrightarrow> foldl mark_mine kb xs = mark_mines kb (set xs)"
proof (induction xs arbitrary: kb)
  case Nil
  show ?case by (simp add: mark_mines_empty)
next
  case (Cons x xs)
  then have "foldl mark_mine (mark_mine kb x) xs = mark_mines (mark_mine kb x) (set xs)"
    by simp
  moreover from Cons.prems have "mark_mines (mark_mine kb x) (set xs) = mark_mines kb (set (x # xs))"
    by (simp add: mark_mines_def mark_mine_def sentence_mark_mines_step o_def)
  ultimately show ?case by simp
qed

lemma sentence_mark_safes_step:
  "sentence_mark_safes (sentence_mark_safe s x) X = sentence_mark_safes s (insert x X)"
proof -
  have "cells s - {x} - X = cells s - insert x X" by blast
  moreover have "x \<notin> cells s \<Longrightarrow> cells s - insert x X = cells s - X" by blast
  ultimately show ?thesis by (simp add: sentence_mark_safes_def sentence_mark_safe_def)
qed

lemma mark_safes_empty: "mark_safes kb {} = kb"
  by (simp add: mark_safes_def sentence_mark_safes_def)

lemma mark_safes_foldl: "foldl mark_safe kb xs = mark_safes kb (set xs)"
proof (induction xs arbitrary: kb)
  case Nil
  show ?case by (simp add: mark_safes_empty)
next
  case (Cons x xs)
  have "mark_safes (mark_safe kb x) (set xs) = mark_safes kb (set (x # xs))"
    by (simp add: mark_safes_def mark_safe_def sentence_mark_safes_step o_def)
  with Cons.IH [of "mark_safe kb x"] show ?case by simp
qed

lemma invalid_step_eq:
  "invalid_step kb (I, n) x
     = (I \<union> ({x} \<inter> (mines kb \<union> safes kb)), n - (if x \<in> mines kb then 1 else 0))"
  by (simp add: invalid_step_def)

lemma invalid_foldl:
  "distinct xs \<Longrightarrow>
   foldl (invalid_step kb) (I, n) xs
     = (I \<union> (set xs \<inter> (mines kb \<union> safes kb)), n - int (card (set xs \<inter> mines kb)))"
proof (induction xs arbitrary: I n)
  case Nil
  show ?case by simp
next
  case (Cons x xs)
  from Cons.prems have d: "distinct xs" and x: "x \<notin> set xs" by simp_all
  have c: "card (set (x # xs) \<inter> mines kb)
      = (if x \<in> mines kb then Suc (card (set xs \<inter> mines kb)) else card (set xs \<inter> mines kb))"
    using x by (simp add: Int_insert_left)
  have "foldl (invalid_step kb) (I, n) (x # xs)
      = foldl (invalid_step kb)
          (I \<union> ({x} \<inter> (mines kb \<union> safes kb)), n - (if x \<in> mines kb then 1 else 0)) xs"
    by (simp only: foldl_Cons invalid_step_eq)
  also have "\<dots> = (I \<union> ({x} \<inter> (mines kb \<union> safes kb)) \<union> (set xs \<inter> (mines kb \<union> safes kb)),
      n - (if x \<in> mines kb then 1 else 0) - int (card (set xs \<inter> mines kb)))"
    by (rule Cons.IH [OF d])
  also have "\<dots> = (I \<union> (set (x # xs) \<inter> (mines kb \<union> safes kb)),
      n - int (card (set (x # xs) \<inter> mines kb)))"
    unfolding c by auto
  finally show ?case .
qed

lemma new_sentence_foldl:
  assumes "distinct xs" and "set xs = neighbours (height kb) (width kb) cell"
  shows "new_sentence kb cell n =
     (case foldl (invalid_step kb) ({}, n) xs of
        (invalid_cells, n') \<Rightarrow> \<lparr>cells = set xs - invalid_cells, count = n'\<rparr>)"
  using assms by (simp add: invalid_foldl new_sentence_def Let_def)

section \<open>Move selection\<close>

lemma make_safe_move_outcomes:
  "make_safe_move kb =
     (if safes kb - moves_made kb \<noteq> {} then (\<lambda>x. (Some x, kb)) ` (safes kb - moves_made kb)
      else {(None, kb)})"
  by (simp add: make_safe_move_def set_pop_def Let_def image_image)

lemma make_random_move_outcomes:
  "make_random_move kb =
     (let A = ({0..width kb - 1} \<times> {0..height kb - 1}) - moves_made kb - mines kb
      in if A \<noteq> {} then (\<lambda>x. (Some x, kb)) ` A else {(None, kb)})"
  by (auto simp add: make_random_move_def set_pop_def Let_def image_image)

text \<open>
  Claim C7. \<^verbatim>\<open>make_safe_move\<close> returns an element of \<open>safes - moves_made\<close> when that set is
  not empty (every element of it is a possible result, and nothing else is), returns
  \<^verbatim>\<open>None\<close> when \<open>safes \<subseteq> moves_made\<close>, and leaves the state of the object as it was: the
  set it pops from is the local difference set.
\<close>

theorem C7_make_safe_move:
  "(safes kb - moves_made kb \<noteq> {} \<longrightarrow>
      fst ` make_safe_move kb = Some ` (safes kb - moves_made kb))
   \<and> (safes kb \<subseteq> moves_made kb \<longrightarrow> fst ` make_safe_move kb = {None})
   \<and> snd ` make_safe_move kb = {kb}"
  by (auto simp: make_safe_move_outcomes image_image)

theorem C7_make_safe_move_witness:
  "safes \<lparr>height = 1, width = 3, moves_made = {(0, 0)}, mines = {},
          safes = {(0, 0), (0, 1)}, knowledge = []\<rparr>
     - moves_made \<lparr>height = 1, width = 3, moves_made = {(0, 0)}, mines = {},
          safes = {(0, 0), (0, 1)}, knowledge = []\<rparr> \<noteq> {}
   \<and> fst ` make_safe_move \<lparr>height = 1, width = 3, moves_made = {(0, 0)}, mines = {},
          safes = {(0, 0), (0, 1)}, knowledge = []\<rparr> = {Some (0, 1)}
   \<and> safes (new_ai 1 3) \<subseteq> moves_made (new_ai 1 3)
   \<and> fst ` make_safe_move (new_ai 1 3) = {None}"
  using C7_make_safe_move [of "\<lparr>height = 1, width = 3, moves_made = {(0, 0)}, mines = {},
          safes = {(0, 0), (0, 1)}, knowledge = []\<rparr>"]
        C7_make_safe_move [of "new_ai 1 3"]
  by (simp add: new_ai_def)

text \<open>
  Claim C10. \<^verbatim>\<open>make_random_move\<close> leaves \<open>moves_made\<close>, \<open>safes\<close>, \<open>mines\<close> and the sentence
  list as they were: in every outcome the state is the state of the call.
\<close>

theorem C10_make_random_move_frame: "snd ` make_random_move kb = {kb}"
proof -
  define A where "A = ({0..width kb - 1} \<times> {0..height kb - 1}) - moves_made kb - mines kb"
  have "make_random_move kb = (if A \<noteq> {} then (\<lambda>x. (Some x, kb)) ` A else {(None, kb)})"
    by (simp add: make_random_move_outcomes Let_def A_def)
  then show ?thesis
    by (cases "A = {}") (simp_all add: image_image image_constant_conv)
qed

text \<open>
  Claim C6. \<^verbatim>\<open>make_random_move\<close> should return a cell of the board (rows below the height,
  columns below the width) that is neither probed nor a known mine. Lines 298 and 299 run
  the row index over \<^verbatim>\<open>range(self.width)\<close> and the column index over
  \<^verbatim>\<open>range(self.height)\<close>. On a board of 1 row and 2 columns, after
  \<^verbatim>\<open>add_knowledge((0, 0), 0)\<close>, the only possible result is the cell (1, 0), which is not on
  the board, and the unprobed cell (0, 1) is never offered.
\<close>

theorem C6_make_random_move_off_board:
  "add_knowledge (new_ai 1 2) (0, 0) 0 =
     Some \<lparr>height = 1, width = 2, moves_made = {(0, 0)}, mines = {},
           safes = {(0, 0), (0, 1)}, knowledge = []\<rparr>
   \<and> make_random_move \<lparr>height = 1, width = 2, moves_made = {(0, 0)}, mines = {},
           safes = {(0, 0), (0, 1)}, knowledge = []\<rparr>
     = {(Some (1, 0), \<lparr>height = 1, width = 2, moves_made = {(0, 0)}, mines = {},
           safes = {(0, 0), (0, 1)}, knowledge = []\<rparr>)}
   \<and> (1, 0) \<notin> grid_cells \<lparr>height = 1, width = 2, moves_made = {(0, 0)}, mines = {},
           safes = {(0, 0), (0, 1)}, knowledge = []\<rparr>"
  by code_simp

section \<open>Scenarios of add_knowledge\<close>

text \<open>
  Claim C8, as amended. On a fresh knowledge base for a board of 1 row and 3 columns,
  \<^verbatim>\<open>add_knowledge((0, 0), 0)\<close> returns with the probed cell and its only neighbour (0, 1) in
  \<open>safes\<close>; the cell (0, 2) is not a neighbour of (0, 0) and is not marked.
\<close>

theorem C8_probe_leftmost:
  "add_knowledge (new_ai 1 3) (0, 0) 0 =
     Some \<lparr>height = 1, width = 3, moves_made = {(0, 0)}, mines = {},
           safes = {(0, 0), (0, 1)}, knowledge = []\<rparr>"
  by code_simp

text \<open>Claim C8 as stated fails: the cell (0, 2) is not in \<open>safes\<close> when the call returns.\<close>

theorem C8_counterexample:
  "add_knowledge (new_ai 1 3) (0, 0) 0 \<noteq> None
   \<and> (0, 2) \<notin> safes (the (add_knowledge (new_ai 1 3) (0, 0) 0))"
  by code_simp

section \<open>Invariants of the knowledge base\<close>

lemma holds_bounds: "holds M R s \<Longrightarrow> 0 \<le> count s \<and> count s \<le> int (card (cells s))"
  by (simp add: holds_def card_mono)

text \<open>
  Claim C2, as amended. When the observations are those of a game on a board with mines \<open>M\<close>
  (no probed cell is a mine, every count is the one the board reports), then after every
  sequence of calls of \<^verbatim>\<open>add_knowledge\<close> on a fresh knowledge base that has returned, the
  sets \<open>safes\<close> and \<open>mines\<close> are disjoint.
\<close>

theorem C2_safes_mines_disjoint:
  "truthful h w M obs \<Longrightarrow> add_knowledge_seq (new_ai h w) obs = Some kb' \<Longrightarrow>
   safes kb' \<inter> mines kb' = {}"
proof -
  assume t: "truthful h w M obs" and r: "add_knowledge_seq (new_ai h w) obs = Some kb'"
  from t have "truthful (height (new_ai h w)) (width (new_ai h w)) M obs"
    by (simp add: new_ai_def)
  from sound_add_knowledge_seq [OF sound_new_ai this r] show ?thesis
    by (auto simp: sound_def)
qed

theorem C2_safes_mines_disjoint_witness:
  "truthful 2 2 {(1, 0)} [((0, 0), 1), ((0, 1), 1), ((1, 1), 1)]
   \<and> add_knowledge_seq (new_ai 2 2) [((0, 0), 1), ((0, 1), 1), ((1, 1), 1)]
       = Some \<lparr>height = 2, width = 2, moves_made = {(0, 0), (0, 1), (1, 1)},
               mines = {(1, 0)}, safes = {(0, 0), (0, 1), (1, 1)}, knowledge = []\<rparr>
   \<and> safes \<lparr>height = 2, width = 2, moves_made = {(0, 0), (0, 1), (1, 1)},
               mines = {(1, 0)}, safes = {(0, 0), (0, 1), (1, 1)}, knowledge = []\<rparr>
     \<inter> mines \<lparr>height = 2, width = 2, moves_made = {(0, 0), (0, 1), (1, 1)},
               mines = {(1, 0)}, safes = {(0, 0), (0, 1), (1, 1)}, knowledge = []\<rparr> = {}"
proof -
  have t: "truthful 2 2 {(1, 0)} [((0, 0), 1), ((0, 1), 1), ((1, 1), 1)]"
    by code_simp
  have r: "add_knowledge_seq (new_ai 2 2) [((0, 0), 1), ((0, 1), 1), ((1, 1), 1)]
       = Some \<lparr>height = 2, width = 2, moves_made = {(0, 0), (0, 1), (1, 1)},
               mines = {(1, 0)}, safes = {(0, 0), (0, 1), (1, 1)}, knowledge = []\<rparr>"
    by code_simp
  from C2_safes_mines_disjoint [OF t r] t r show ?thesis by blast
qed

text \<open>
  Claim C2 as stated fails for counts that no board reports: on a board of 2 rows and 2
  columns, after the observations ((1, 1), 1), ((1, 0), 1), ((0, 1), 0) the cell (0, 0) is
  in \<open>safes\<close> and in \<open>mines\<close>.
\<close>

theorem C2_counterexample:
  "add_knowledge_seq (new_ai 2 2) [((1, 1), 1), ((1, 0), 1), ((0, 1), 0)] \<noteq> None
   \<and> (0, 0) \<in> safes (the (add_knowledge_seq (new_ai 2 2) [((1, 1), 1), ((1, 0), 1), ((0, 1), 0)]))
            \<inter> mines (the (add_knowledge_seq (new_ai 2 2) [((1, 1), 1), ((1, 0), 1), ((0, 1), 0)]))"
  by code_simp

text \<open>
  Claim C3, as amended. When the observations are those of a game on a board with mines \<open>M\<close>,
  then after every sequence of calls of \<^verbatim>\<open>add_knowledge\<close> on a fresh knowledge base that has
  returned, every sentence of the knowledge base has a count between 0 and the size of its
  cell set.
\<close>

theorem C3_count_bounds:
  "truthful h w M obs \<Longrightarrow> add_knowledge_seq (new_ai h w) obs = Some kb' \<Longrightarrow>
   \<forall>s\<in>set (knowledge kb'). 0 \<le> count s \<and> count s \<le> int (card (cells s))"
proof -
  assume t: "truthful h w M obs" and r: "add_knowledge_seq (new_ai h w) obs = Some kb'"
  from t have "truthful (height (new_ai h w)) (width (new_ai h w)) M obs"
    by (simp add: new_ai_def)
  from sound_add_knowledge_seq [OF sound_new_ai this r] show ?thesis
    using holds_bounds by (auto simp: sound_def)
qed

theorem C3_count_bounds_witness:
  "truthful 2 2 {(1, 0)} [((0, 0), 1), ((0, 1), 1)]
   \<and> add_knowledge_seq (new_ai 2 2) [((0, 0), 1), ((0, 1), 1)]
       = Some \<lparr>height = 2, width = 2, moves_made = {(0, 0), (0, 1)}, mines = {},
               safes = {(0, 0), (0, 1)},
               knowledge = [\<lparr>cells = {(1, 0), (1, 1)}, count = 1\<rparr>]\<rparr>
   \<and> 0 \<le> count \<lparr>cells = {(1, 0), (1, 1)}, count = 1\<rparr>
   \<and> count \<lparr>cells = {(1, 0), (1, 1)}, count = 1\<rparr>
       \<le> int (card (cells \<lparr>cells = {(1, 0), (1, 1)}, count = 1\<rparr>))"
proof -
  have t: "truthful 2 2 {(1, 0)} [((0, 0), 1), ((0, 1), 1)]"
    by code_simp
  have r: "add_knowledge_seq (new_ai 2 2) [((0, 0), 1), ((0, 1), 1)]
       = Some \<lparr>height = 2, width = 2, moves_made = {(0, 0), (0, 1)}, mines = {},
               safes = {(0, 0), (0, 1)},
               knowledge = [\<lparr>cells = {(1, 0), (1, 1)}, count = 1\<rparr>]\<rparr>"
    by code_simp
  from C3_count_bounds [OF t r] t r show ?thesis by simp
qed

text \<open>
  Claim C3 as stated fails: \<^verbatim>\<open>add_knowledge\<close> stores the count it is given. On a board of 1
  row and 2 columns, \<^verbatim>\<open>add_knowledge((0, 0), 2)\<close> leaves a sentence of one cell and count 2.
\<close>

theorem C3_counterexample:
  "add_knowledge_seq (new_ai 1 2) [((0, 0), 2)]
     = Some \<lparr>height = 1, width = 2, moves_made = {(0, 0)}, mines = {}, safes = {(0, 0)},
             knowledge = [\<lparr>cells = {(0, 1)}, count = 2\<rparr>]\<rparr>
   \<and> \<not> count \<lparr>cells = {(0, 1)}, count = 2\<rparr> \<le> int (card (cells \<lparr>cells = {(0, 1)}, count = 2\<rparr>))"
  by code_simp

section \<open>Sentences with no cells\<close>

lemma candidates_nonempty: "x \<in> candidates K \<Longrightarrow> cells x \<noteq> {}"
  by (auto simp: candidates_def inference_def)








section \<open>Subset inference\<close>

lemma resolve_nothing: "cells s \<inter> ms = {} \<Longrightarrow> resolve ms {} {} s = s"
proof -
  assume "cells s \<inter> ms = {}"
  then have "cells s - ms = cells s" by blast
  then show ?thesis
    by (simp add: resolve_def sentence_mark_mines_def sentence_mark_safes_def)
qed

lemma survivors_quiet:
  assumes "\<forall>s\<in>set (knowledge kb). known_mines s = {} \<and> known_safes s = {}
             \<and> cells s \<inter> mines kb = {}"
  shows "found_mines (knowledge kb) = {}" "found_safes (knowledge kb) = {}"
    "\<not> found_any (mines kb) (knowledge kb)"
    "survivors kb = filter (\<lambda>s. cells s \<noteq> {}) (knowledge kb)"
proof -
  from assms show fm: "found_mines (knowledge kb) = {}" by (simp add: found_mines_def)
  from assms show fs: "found_safes (knowledge kb) = {}" by (simp add: found_safes_def)
  from assms show "\<not> found_any (mines kb) (knowledge kb)" by (simp add: found_any_def)
  have "map (resolve (mines kb) {} {}) (knowledge kb) = knowledge kb"
    using assms by (intro map_idI resolve_nothing) simp
  then show "survivors kb = filter (\<lambda>s. cells s \<noteq> {}) (knowledge kb)"
    by (simp add: survivors_def fm fs)
qed



section \<open>A cell that is not on the board\<close>

lemma loop_stop: "pass kb = (False, kb') \<Longrightarrow> loop kb = Some kb'"
  by (subst loop.simps) simp

lemma loop_step: "pass kb = (True, kb1) \<Longrightarrow> loop kb = loop kb1"
  by (subst loop.simps) simp

lemma infer_few: "length K \<le> 1 \<Longrightarrow> infer K u = (u, [])"
proof -
  assume "length K \<le> 1"
  then have "candidates K = {}"
    by (cases K) (auto simp: candidates_def)
  then have "set (snd (infer K u)) = {}" "fst (infer K u) = u"
    by (simp_all add: infer_eq)
  then show ?thesis by (simp add: prod_eq_iff)
qed

lemma pass_no_sentence: "knowledge kb = [] \<Longrightarrow> pass kb = (False, kb)"
  by (simp add: pass_eq survivors_def found_mines_def found_safes_def found_any_def infer_few)

lemma loop_single:
  assumes K: "knowledge kb = [s]" and ms: "cells s \<inter> mines kb = {}"
  shows "\<exists>kb'. loop kb = Some kb' \<and> moves_made kb' = moves_made kb \<and> safes kb \<subseteq> safes kb'"
proof (cases "known_mines s = {} \<and> known_safes s = {}")
  case True
  with K ms have q: "\<forall>s\<in>set (knowledge kb). known_mines s = {} \<and> known_safes s = {}
                  \<and> cells s \<inter> mines kb = {}"
    by simp
  note sq = survivors_quiet [OF q]
  have "length (survivors kb) \<le> 1" by (simp add: sq K)
  then have "pass kb = (False, kb\<lparr>knowledge := survivors kb\<rparr>)"
    by (simp add: pass_eq infer_few sq)
  from loop_stop [OF this] show ?thesis by simp
next
  case False
  let ?km = "found_mines (knowledge kb)" and ?ks = "found_safes (knowledge kb)"
  from False have "?km \<union> ?ks = cells s"
    by (auto simp: K found_mines_def found_safes_def known_mines_def known_safes_def
        split: if_splits)
  then have "cells (resolve (mines kb) ?km ?ks s) = {}"
    by (auto simp: resolve_fields)
  then have surv: "survivors kb = []" by (simp add: survivors_def K)
  from False have "found_any (mines kb) (knowledge kb)" by (auto simp: found_any_def K)
  with surv have p: "pass kb = (True, kb\<lparr>mines := mines kb \<union> ?km, safes := safes kb \<union> ?ks,
      knowledge := []\<rparr>)"
    by (simp add: pass_eq infer_few)
  have "pass (kb\<lparr>mines := mines kb \<union> ?km, safes := safes kb \<union> ?ks, knowledge := []\<rparr>)
      = (False, kb\<lparr>mines := mines kb \<union> ?km, safes := safes kb \<union> ?ks, knowledge := []\<rparr>)"
    by (rule pass_no_sentence) simp
  from loop_stop [OF this] loop_step [OF p] show ?thesis by simp
qed

text \<open>
  Claim C9, as amended. \<^verbatim>\<open>add_knowledge\<close> has no bounds check and the file has no
  \<^verbatim>\<open>raise\<close>: called on a fresh knowledge base with a cell that is not on the board, it
  returns, and the cell is recorded in \<open>moves_made\<close> and in \<open>safes\<close>.
\<close>

theorem C9_no_bounds_check:
  "cell \<notin> grid_cells (new_ai h w) \<Longrightarrow>
   \<exists>kb'. add_knowledge (new_ai h w) cell n = Some kb'
          \<and> cell \<in> moves_made kb' \<and> cell \<in> safes kb'"
proof -
  let ?kb = "observe (new_ai h w) cell n"
  let ?s = "\<lparr>cells = neighbours h w cell, count = n\<rparr>"
  have "neighbours h w cell \<inter> {cell} = {}" using neighbours_not_self by simp
  then have "?kb = \<lparr>height = h, width = w, moves_made = {cell}, mines = {}, safes = {cell},
      knowledge = [?s]\<rparr>"
    by (simp add: observe_def new_ai_def mark_safe_def new_sentence_def Let_def)
  then have "knowledge ?kb = [?s]" "cells ?s \<inter> mines ?kb = {}"
    "moves_made ?kb = {cell}" "safes ?kb = {cell}"
    by simp_all
  from loop_single [OF this(1,2)] this(3,4) show ?thesis
    by (auto simp: add_knowledge_def)
qed

theorem C9_no_bounds_check_witness:
  "(5, 5) \<notin> grid_cells (new_ai 1 3)
   \<and> (\<exists>kb'. add_knowledge (new_ai 1 3) (5, 5) 0 = Some kb'
          \<and> (5, 5) \<in> moves_made kb' \<and> (5, 5) \<in> safes kb')"
proof -
  have h: "(5, 5) \<notin> grid_cells (new_ai 1 3)" by (simp add: grid_cells_def new_ai_def)
  from C9_no_bounds_check [OF h] h show ?thesis by blast
qed

text \<open>
  Claim C9 as stated fails: on a board of 1 row and 3 columns, \<^verbatim>\<open>add_knowledge((5, 5), 0)\<close>
  returns a state, with the cell (5, 5) in \<open>moves_made\<close> and \<open>safes\<close>.
\<close>

theorem C9_counterexample:
  "(5, 5) \<notin> grid_cells (new_ai 1 3)
   \<and> add_knowledge (new_ai 1 3) (5, 5) 0
       = Some \<lparr>height = 1, width = 3, moves_made = {(5, 5)}, mines = {}, safes = {(5, 5)},
               knowledge = []\<rparr>"
  by code_simp

section \<open>A call that does not return\<close>

lemma loop_diverges:
  assumes i: "I kb" and step: "\<And>k. I k \<Longrightarrow> fst (pass k) \<and> I (snd (pass k))"
  shows "loop kb = None"
proof (rule ccontr)
  assume "loop kb \<noteq> None"
  then obtain kb' where "loop kb = Some kb'" by auto
  from loop_induct [of kb kb' I, OF this i] step
  obtain k where "I k" "pass k = (False, kb')" by blast
  with step [of k] show False by simp
qed

lemma spread_shape:
  assumes "card P = 1" "card Q = 2" "P \<inter> Q = {}"
  shows "finite P" "finite Q" "P \<noteq> {}" "Q \<noteq> {}" "card (P \<union> Q) = 3"
    "P \<union> Q - P = Q" "P \<union> Q - Q = P" "P \<union> Q \<noteq> P" "P \<union> Q \<noteq> Q" "P \<noteq> Q"
    "\<not> P \<union> Q \<subseteq> P" "\<not> P \<union> Q \<subseteq> Q" "\<not> P \<subseteq> Q" "\<not> Q \<subseteq> P"
proof -
  from assms show fP: "finite P" and fQ: "finite Q" by (simp_all add: card_ge_0_finite)
  from assms show nP: "P \<noteq> {}" and nQ: "Q \<noteq> {}" by auto
  from assms fP fQ show "card (P \<union> Q) = 3" by (simp add: card_Un_disjoint)
  from assms show "P \<union> Q - P = Q" "P \<union> Q - Q = P" by blast+
  from assms nP nQ show "P \<union> Q \<noteq> P" "P \<union> Q \<noteq> Q" "P \<noteq> Q" by blast+
  from assms nP nQ show "\<not> P \<union> Q \<subseteq> P" "\<not> P \<union> Q \<subseteq> Q" "\<not> P \<subseteq> Q" "\<not> Q \<subseteq> P" by blast+
qed

lemma spread_sentence_quiet:
  assumes "card P = 1" "card Q = 2" "P \<inter> Q = {}" and s: "spread_sentence P Q s"
  shows "known_mines s = {} \<and> known_safes s = {} \<and> cells s \<noteq> {}"
proof -
  note sh = spread_shape [OF assms(1-3)]
  from s consider "cells s = P \<union> Q" "count s = 1 \<or> count s = 5"
    | "cells s = P" "count s mod 4 = 2" | "cells s = Q" "count s mod 4 = 3"
    unfolding spread_sentence_def by blast
  then show ?thesis
  proof cases
    case 1
    with sh(5) sh(3) show ?thesis by (auto simp: known_mines_def known_safes_def)
  next
    case 2
    then have "count s \<noteq> 1" "count s \<noteq> 0" by auto
    with 2 assms(1) sh(3) show ?thesis by (simp add: known_mines_def known_safes_def)
  next
    case 3
    then have "count s \<noteq> 2" "count s \<noteq> 0" by auto
    with 3 assms(2) sh(4) show ?thesis by (simp add: known_mines_def known_safes_def)
  qed
qed

lemma spread_inference:
  assumes "card P = 1" "card Q = 2" "P \<inter> Q = {}"
    and s1: "spread_sentence P Q s1" and s2: "spread_sentence P Q s2"
    and ne: "cells s1 \<noteq> cells s2" and sub: "cells s2 \<subseteq> cells s1"
  shows "spread_sentence P Q (inference s1 s2)"
proof -
  note sh = spread_shape [OF assms(1-3)]
  from s1 consider (T) "cells s1 = P \<union> Q" "count s1 = 1 \<or> count s1 = 5"
    | (P) "cells s1 = P" | (Q) "cells s1 = Q"
    unfolding spread_sentence_def by blast
  then show ?thesis
  proof cases
    case T
    from s2 ne T consider (P2) "cells s2 = P" "count s2 mod 4 = 2"
      | (Q2) "cells s2 = Q" "count s2 mod 4 = 3"
      unfolding spread_sentence_def by metis
    then show ?thesis
    proof cases
      case P2
      from T(2) P2(2) have "(count s1 - count s2) mod 4 = 3" by presburger
      with T P2 sh(6) show ?thesis by (simp add: spread_sentence_def inference_def)
    next
      case Q2
      from T(2) Q2(2) have "(count s1 - count s2) mod 4 = 2" by presburger
      with T Q2 sh(7) show ?thesis by (simp add: spread_sentence_def inference_def)
    qed
  next
    case P
    from s2 have "cells s2 = P \<union> Q \<or> cells s2 = P \<or> cells s2 = Q"
      unfolding spread_sentence_def by blast
    with ne sub P sh(11) sh(14) have False by metis
    then show ?thesis ..
  next
    case Q
    from s2 have "cells s2 = P \<union> Q \<or> cells s2 = P \<or> cells s2 = Q"
      unfolding spread_sentence_def by blast
    with ne sub Q sh(12) sh(13) have False by metis
    then show ?thesis ..
  qed
qed


lemma candidatesI:
  "s1 \<in> set K \<Longrightarrow> s2 \<in> set K \<Longrightarrow> cells s1 \<noteq> cells s2 \<Longrightarrow> cells s2 \<subseteq> cells s1
   \<Longrightarrow> inference s1 s2 \<in> candidates K"
  unfolding candidates_def by blast

lemma spread_step:
  assumes sp: "spread P Q k"
  shows "fst (pass k) \<and> spread P Q (snd (pass k))"
proof -
  let ?K = "knowledge k"
  from sp have c: "card P = 1" "card Q = 2" "P \<inter> Q = {}" and m: "mines k = {}"
    and t1: "\<lparr>cells = P \<union> Q, count = 1\<rparr> \<in> set ?K"
    and t5: "\<lparr>cells = P \<union> Q, count = 5\<rparr> \<in> set ?K"
    and all: "\<forall>s\<in>set ?K. spread_sentence P Q s"
    by (simp_all add: spread_def)
  from sp obtain c0 where c0: "\<lparr>cells = P, count = c0\<rparr> \<in> set ?K"
    unfolding spread_def by blast
  note sh = spread_shape [OF c]
  from all m have quiet: "\<forall>s\<in>set ?K. known_mines s = {} \<and> known_safes s = {}
      \<and> cells s \<inter> mines k = {}"
    using spread_sentence_quiet [OF c] by simp
  note sq = survivors_quiet [OF quiet]
  from all have "\<forall>s\<in>set ?K. cells s \<noteq> {}" using spread_sentence_quiet [OF c] by blast
  then have surv: "survivors k = ?K" by (simp add: sq)
  have cand: "spread_sentence P Q x" if "x \<in> candidates ?K" for x
    using that all spread_inference [OF c] unfolding candidates_def by blast
  have new: "\<not> candidates ?K \<subseteq> set ?K"
  proof
    assume sub: "candidates ?K \<subseteq> set ?K"
    let ?C = "count ` {s \<in> set ?K. cells s = P}"
    have fin: "finite ?C" by simp
    from c0 have "c0 \<in> ?C" by force
    then have ne: "?C \<noteq> {}" by blast
    from Max_in [OF fin ne] obtain s where s: "s \<in> set ?K" "cells s = P" "count s = Max ?C"
      by auto
    have "inference \<lparr>cells = P \<union> Q, count = 1\<rparr> s \<in> candidates ?K"
      using t1 s(1) by (rule candidatesI) (simp_all add: s sh(8))
    moreover have "inference \<lparr>cells = P \<union> Q, count = 1\<rparr> s
        = \<lparr>cells = Q, count = 1 - Max ?C\<rparr>"
      by (simp add: inference_def s sh(6))
    ultimately have q: "\<lparr>cells = Q, count = 1 - Max ?C\<rparr> \<in> set ?K"
      using sub by auto
    have "inference \<lparr>cells = P \<union> Q, count = 5\<rparr> \<lparr>cells = Q, count = 1 - Max ?C\<rparr>
        \<in> candidates ?K"
      using t5 q by (rule candidatesI) (simp_all add: sh(9))
    moreover have "inference \<lparr>cells = P \<union> Q, count = 5\<rparr> \<lparr>cells = Q, count = 1 - Max ?C\<rparr>
        = \<lparr>cells = P, count = 5 - (1 - Max ?C)\<rparr>"
      by (simp add: inference_def sh(7))
    ultimately have "\<lparr>cells = P, count = 5 - (1 - Max ?C)\<rparr> \<in> set ?K"
      using sub by auto
    then have "5 - (1 - Max ?C) \<in> ?C" by force
    from Max_ge [OF fin this] show False by simp
  qed
  have flag: "fst (pass k)" using new by (simp add: pass_eq infer_eq surv)
  have K': "set (knowledge (snd (pass k))) = set ?K \<union> candidates ?K"
    by (auto simp: pass_eq infer_eq surv)
  have m': "mines (snd (pass k)) = {}" by (simp add: pass_eq sq m)
  have "spread P Q (snd (pass k))"
    unfolding spread_def K' using c m' t1 t5 c0 all cand by blast
  with flag show ?thesis ..
qed

lemma spread_loop: "spread P Q k \<Longrightarrow> loop k = None"
  by (rule loop_diverges [of "spread P Q"]) (simp_all add: spread_step)

text \<open>
  Claim C4 as stated fails. On a board of 2 rows and 3 columns, after the observations
  ((0, 1), 1) and ((1, 1), 5), the call \<^verbatim>\<open>add_knowledge((0, 0), 2)\<close> does not return: every
  pass of the loop infers sentences that are new.
\<close>

theorem C4_counterexample:
  "add_knowledge_seq (new_ai 2 3) [((0, 1), 1), ((1, 1), 5)]
     = Some \<lparr>height = 2, width = 3, moves_made = {(0, 1), (1, 1)}, mines = {},
             safes = {(0, 1), (1, 1)},
             knowledge = [\<lparr>cells = {(0, 0), (0, 2), (1, 0), (1, 2)}, count = 1\<rparr>,
                          \<lparr>cells = {(0, 0), (0, 2), (1, 0), (1, 2)}, count = 5\<rparr>]\<rparr>
   \<and> add_knowledge \<lparr>height = 2, width = 3, moves_made = {(0, 1), (1, 1)}, mines = {},
             safes = {(0, 1), (1, 1)},
             knowledge = [\<lparr>cells = {(0, 0), (0, 2), (1, 0), (1, 2)}, count = 1\<rparr>,
                          \<lparr>cells = {(0, 0), (0, 2), (1, 0), (1, 2)}, count = 5\<rparr>]\<rparr>
         (0, 0) 2 = None"
proof -
  let ?kb = "\<lparr>height = 2, width = 3, moves_made = {(0, 1), (1, 1)}, mines = {},
             safes = {(0, 1), (1, 1)},
             knowledge = [\<lparr>cells = {(0, 0), (0, 2), (1, 0), (1, 2)}, count = 1\<rparr>,
                          \<lparr>cells = {(0, 0), (0, 2), (1, 0), (1, 2)}, count = 5\<rparr>]\<rparr>"
  have r: "add_knowledge_seq (new_ai 2 3) [((0, 1), 1), ((1, 1), 5)] = Some ?kb"
    by code_simp
  have o: "observe ?kb (0, 0) 2
      = \<lparr>height = 2, width = 3, moves_made = {(0, 0), (0, 1), (1, 1)}, mines = {},
         safes = {(0, 0), (0, 1), (1, 1)},
         knowledge = [\<lparr>cells = {(1, 0)} \<union> {(0, 2), (1, 2)}, count = 1\<rparr>,
                      \<lparr>cells = {(1, 0)} \<union> {(0, 2), (1, 2)}, count = 5\<rparr>,
                      \<lparr>cells = {(1, 0)}, count = 2\<rparr>]\<rparr>"
    by code_simp
  have "spread {(1, 0)} {(0, 2), (1, 2)} (observe ?kb (0, 0) 2)"
    unfolding o by (simp add: spread_def spread_sentence_def)
  then have "add_knowledge ?kb (0, 0) 2 = None"
    unfolding add_knowledge_def by (rule spread_loop)
  with r show ?thesis by simp
qed

section \<open>Termination of the loop on the observations of a game\<close>

lemma finite_sentences_over:
  assumes "finite G"
  shows "finite (sentences_over G)"
proof -
  have "sentences_over G
      \<subseteq> (\<lambda>(c, n). \<lparr>cells = c, count = n\<rparr>) ` (Pow G \<times> {0..int (card G)})"
  proof
    fix s assume s: "s \<in> sentences_over G"
    then have "card (cells s) \<le> card G"
      using assms by (auto simp: sentences_over_def intro: card_mono)
    with s have "(cells s, count s) \<in> Pow G \<times> {0..int (card G)}"
      by (auto simp: sentences_over_def)
    moreover have "s = (\<lambda>(c, n). \<lparr>cells = c, count = n\<rparr>) (cells s, count s)" by simp
    ultimately show "s \<in> (\<lambda>(c, n). \<lparr>cells = c, count = n\<rparr>) ` (Pow G \<times> {0..int (card G)})"
      by (rule rev_image_eqI)
  qed
  moreover have "finite ((\<lambda>(c, n). \<lparr>cells = c, count = n\<rparr>) ` (Pow G \<times> {0..int (card G)}))"
    using assms by simp
  ultimately show ?thesis by (rule finite_subset)
qed

lemma known_subset: "known_mines s \<subseteq> cells s" "known_safes s \<subseteq> cells s"
  by (simp_all add: known_mines_def known_safes_def)

lemma found_mentioned:
  "found_mines (knowledge k) \<union> found_safes (knowledge k) \<subseteq> mentioned k"
  using known_subset by (fastforce simp: found_mines_def found_safes_def mentioned_def
      split: if_splits)

lemma candidates_cells: "x \<in> candidates K \<Longrightarrow> \<exists>s\<in>set K. cells x \<subseteq> cells s"
  by (auto simp: candidates_def inference_def)

lemma survivors_cells:
  "x \<in> set (survivors k) \<Longrightarrow>
   \<exists>s\<in>set (knowledge k).
      cells x \<subseteq> cells s - (found_mines (knowledge k) \<union> found_safes (knowledge k))"
  by (auto simp: survivors_def resolve_fields)

lemma mentioned_pass:
  "mentioned (snd (pass k))
     \<subseteq> mentioned k - (found_mines (knowledge k) \<union> found_safes (knowledge k))"
proof
  fix c assume "c \<in> mentioned (snd (pass k))"
  then obtain x where x: "x \<in> set (survivors k) \<union> candidates (survivors k)" "c \<in> cells x"
    by (auto simp: mentioned_def pass_eq infer_eq)
  then obtain y where y: "y \<in> set (survivors k)" "c \<in> cells y"
    using candidates_cells by blast
  with survivors_cells obtain s where "s \<in> set (knowledge k)"
    "c \<in> cells s - (found_mines (knowledge k) \<union> found_safes (knowledge k))"
    by blast
  then show "c \<in> mentioned k - (found_mines (knowledge k) \<union> found_safes (knowledge k))"
    by (auto simp: mentioned_def)
qed

lemma finite_mentioned: "sound M k \<Longrightarrow> finite (mentioned k)"
  by (simp add: sound_def holds_def mentioned_def)


lemma sound_quiet:
  assumes s: "sound M k" and km: "found_mines (knowledge k) = {}"
    and ks: "found_safes (knowledge k) = {}"
  shows "\<forall>s\<in>set (knowledge k). known_mines s = {} \<and> known_safes s = {}
           \<and> cells s \<inter> mines k = {}"
proof
  fix x assume x: "x \<in> set (knowledge k)"
  with km have a: "known_mines x = {}" by (auto simp: found_mines_def)
  with ks x have b: "known_safes x = {}" by (fastforce simp: found_safes_def)
  from s x have "cells x \<inter> mines k = {}" by (auto simp: sound_def holds_def)
  with a b show "known_mines x = {} \<and> known_safes x = {} \<and> cells x \<inter> mines k = {}" by simp
qed

lemma pass_decreases:
  assumes s: "sound M k" and G: "finite G" "mentioned k \<subseteq> G" and flag: "fst (pass k)"
  shows "(snd (pass k), k) \<in> pass_order G"
proof (cases "found_mines (knowledge k) \<union> found_safes (knowledge k) = {}")
  case False
  with found_mentioned [of k] mentioned_pass [of k]
  have "mentioned (snd (pass k)) \<subset> mentioned k" by blast
  with finite_mentioned [OF s] have "card (mentioned (snd (pass k))) < card (mentioned k)"
    by (rule psubset_card_mono)
  then show ?thesis by (simp add: pass_order_def)
next
  case True
  let ?K = "knowledge k" and ?S = "survivors k"
  from True have q: "\<forall>s\<in>set ?K. known_mines s = {} \<and> known_safes s = {}
      \<and> cells s \<inter> mines k = {}"
    by (intro sound_quiet [OF s]) simp_all
  note sq = survivors_quiet [OF q]
  from flag have "\<not> candidates ?S \<subseteq> set ?S" by (simp add: pass_eq infer_eq sq)
  then obtain x where x: "x \<in> candidates ?S" "x \<notin> set ?S" by blast
  have K': "set (knowledge (snd (pass k))) = set ?S \<union> candidates ?S"
    by (auto simp: pass_eq infer_eq)
  from s have all: "\<forall>s\<in>set ?S. holds M (mines k \<union> safes k) s"
    by (simp add: sq sound_def)
  from x(1) have "cells x \<noteq> {}" by (rule candidates_nonempty)
  moreover from x(1) candidates_cells obtain y where "y \<in> set ?S" "cells x \<subseteq> cells y" by blast
  then have "cells x \<subseteq> G" using G(2) by (auto simp: sq mentioned_def)
  moreover from holds_candidates [OF all x(1)] have "0 \<le> count x \<and> count x \<le> int (card (cells x))"
    by (rule holds_bounds)
  ultimately have xin: "x \<in> sentences_over G" by (simp add: sentences_over_def)
  have xnew: "x \<notin> set ?K" using x(2) \<open>cells x \<noteq> {}\<close> by (simp add: sq)
  have "sentences_over G \<inter> set ?K \<subseteq> set ?S" by (auto simp: sq sentences_over_def)
  with xin xnew x(1)
  have "sentences_over G - set (knowledge (snd (pass k))) \<subset> sentences_over G - set ?K"
    unfolding K' by blast
  moreover have "finite (sentences_over G - set ?K)"
    using finite_sentences_over [OF G(1)] by simp
  ultimately have lt: "card (sentences_over G - set (knowledge (snd (pass k))))
      < card (sentences_over G - set ?K)"
    by (simp add: psubset_card_mono)
  from mentioned_pass [of k] have "mentioned (snd (pass k)) \<subseteq> mentioned k" by blast
  with finite_mentioned [OF s] have "card (mentioned (snd (pass k))) \<le> card (mentioned k)"
    by (simp add: card_mono)
  with lt show ?thesis by (auto simp: pass_order_def)
qed

lemma loop_terminates_over:
  assumes G: "finite G"
  shows "sound M k \<and> mentioned k \<subseteq> G \<longrightarrow> (\<exists>k'. loop k = Some k')"
proof -
  have "wf (pass_order G)"
    unfolding pass_order_def by (intro wf_inv_image wf_lex_prod wf_less_than)
  then show ?thesis
  proof (induction k rule: wf_induct_rule)
    case (less k)
    show ?case
    proof
      assume a: "sound M k \<and> mentioned k \<subseteq> G"
      show "\<exists>k'. loop k = Some k'"
      proof (cases "fst (pass k)")
        case False
        then show ?thesis by (subst loop.simps) simp
      next
        case True
        from a have sk: "sound M k" and mk: "mentioned k \<subseteq> G" by simp_all
        have d: "(snd (pass k), k) \<in> pass_order G"
          by (rule pass_decreases [OF sk G mk True])
        from a mentioned_pass [of k] have "sound M (snd (pass k)) \<and> mentioned (snd (pass k)) \<subseteq> G"
          by (auto simp: sound_pass)
        with less [OF d] obtain k' where "loop (snd (pass k)) = Some k'" by blast
        with True show ?thesis by (subst loop.simps) simp
      qed
    qed
  qed
qed

lemma loop_terminates: "sound M k \<Longrightarrow> \<exists>k'. loop k = Some k'"
  using loop_terminates_over [of "mentioned k" M k] finite_mentioned [of M k] by simp

lemma add_knowledge_seq_terminates:
  "sound M kb \<Longrightarrow> truthful (height kb) (width kb) M obs \<Longrightarrow>
   \<exists>kb'. add_knowledge_seq kb obs = Some kb'"
proof (induction obs arbitrary: kb)
  case Nil
  show ?case by simp
next
  case (Cons o1 obs)
  obtain cell n where o1: "o1 = (cell, n)" by (cases o1)
  from Cons.prems(2) o1 have c: "cell \<notin> M" and n: "n = nearby_mines (height kb) (width kb) M cell"
    and t: "truthful (height kb) (width kb) M obs"
    by (simp_all add: truthful_def)
  from loop_terminates [OF sound_observe [OF Cons.prems(1) c n]]
  obtain k where k: "add_knowledge kb cell n = Some k" by (auto simp: add_knowledge_def)
  from sound_add_knowledge [OF Cons.prems(1) c n k]
  have "sound M k" "height k = height kb" "width k = width kb" by simp_all
  with Cons.IH [of k] t obtain kb' where "add_knowledge_seq k obs = Some kb'" by auto
  with k o1 show ?case by simp
qed

text \<open>
  Claim C4, as amended. When the observations are those of a game on a board with mines \<open>M\<close>
  (no probed cell is a mine, every count is the one the board reports), every call of
  \<^verbatim>\<open>add_knowledge\<close> in a sequence of calls on a fresh knowledge base returns: its loop makes
  finitely many passes.
\<close>

theorem C4_loop_terminates:
  "truthful h w M obs \<Longrightarrow> \<exists>kb'. add_knowledge_seq (new_ai h w) obs = Some kb'"
proof -
  assume "truthful h w M obs"
  then have "truthful (height (new_ai h w)) (width (new_ai h w)) M obs"
    by (simp add: new_ai_def)
  from add_knowledge_seq_terminates [OF sound_new_ai this] show ?thesis .
qed

theorem C4_loop_terminates_witness:
  "truthful 2 2 {(1, 0)} [((0, 0), 1), ((0, 1), 1), ((1, 1), 1)]
   \<and> (\<exists>kb'. add_knowledge_seq (new_ai 2 2) [((0, 0), 1), ((0, 1), 1), ((1, 1), 1)] = Some kb')"
proof -
  have t: "truthful 2 2 {(1, 0)} [((0, 0), 1), ((0, 1), 1), ((1, 1), 1)]"
    by code_simp
  from C4_loop_terminates [OF t] t show ?thesis by blast
qed

section \<open>Subset inference in a game\<close>













end
